theory Spec2Isabelle
  imports
    Main
    "HOL-Library.AList"
    "HOL-Library.Char_ord"
    "HOL-Library.Multiset"
    "HOL-Library.Sublist"
    "HOL-Library.Word"
begin

section \<open>Python values used by the compressor\<close>

text \<open>
  The compressor is a Python class. Its exceptions become values: the built-in exceptions
  that the code can raise and never catches, and the one explicit exit of
  \<open>__get_byte_array\<close> (\<open>print(msg); exit(0)\<close>), which carries the printed message
  and the exit status.
\<close>

datatype error = IndexError | KeyError | ValueError | SystemExit string int

text \<open>
  The status with which the process ends when nothing catches the error: the argument
  of \<open>exit\<close>, and 1 for an exception. Status 0 is what a run without any error ends with.
\<close>

fun exit_status :: "error \<Rightarrow> int" where
  "exit_status (SystemExit msg st) = st"
| "exit_status _ = 1"

text \<open>
  \<open>s.replace(old, new)\<close> on strings: every occurrence of \<open>old\<close>, from the left and
  without overlap, becomes \<open>new\<close>; with an empty \<open>old\<close>, \<open>new\<close> is put before every
  character and at the end.
\<close>

function str_replace :: "string \<Rightarrow> string \<Rightarrow> string \<Rightarrow> string" where
  "str_replace s old new =
     (if old = [] then new @ concat (map (\<lambda>c. c # new) s)
      else if s = [] then []
      else if prefix old s then new @ str_replace (drop (length old) s) old new
      else hd s # str_replace (tl s) old new)"
  by pat_completeness auto
termination
  by (relation "measure (\<lambda>(s, old, new). length s)") auto

declare str_replace.simps [simp del]

text \<open>
  A \<open>dict\<close> keeps its keys in insertion order, and assigning to a key that is present
  keeps the key's position. An association list with \<open>AList.update\<close> does exactly that;
  \<open>map_of\<close> is the lookup.
\<close>

type_synonym ('k, 'v) dict = "('k \<times> 'v) list"

definition dict_getitem :: "('k, 'v) dict \<Rightarrow> 'k \<Rightarrow> error + 'v" where
  "dict_getitem d k = (case map_of d k of None \<Rightarrow> Inl KeyError | Some v \<Rightarrow> Inr v)"

definition dict_get :: "('k, 'v) dict \<Rightarrow> 'k \<Rightarrow> 'v \<Rightarrow> 'v" where
  "dict_get d k dflt = (case map_of d k of None \<Rightarrow> dflt | Some v \<Rightarrow> v)"

definition dict_of_items :: "('k \<times> 'v) list \<Rightarrow> ('k, 'v) dict" where
  "dict_of_items items = fold (\<lambda>(k, v) d. AList.update k v d) items []"

definition list_remove :: "'a list \<Rightarrow> 'a \<Rightarrow> error + 'a list" where
  "list_remove xs x = (if x \<in> set xs then Inr (remove1 x xs) else Inl ValueError)"

text \<open>\<open>range(start, stop, step)\<close> for a positive step.\<close>

definition range_step :: "nat \<Rightarrow> nat \<Rightarrow> nat \<Rightarrow> nat list" where
  "range_step start stop step =
     map (\<lambda>k. start + k * step) [0..<((stop - start) + (step - 1)) div step]"

text \<open>The slice \<open>s[i:j]\<close> for indices that are not negative.\<close>

definition slice :: "'a list \<Rightarrow> nat \<Rightarrow> nat \<Rightarrow> 'a list" where
  "slice s i j = take (j - i) (drop i s)"

text \<open>The slice \<open>s[1:-1]\<close>.\<close>

definition slice_1_m1 :: "'a list \<Rightarrow> 'a list" where
  "slice_1_m1 s = butlast (tl s)"

definition digit_char :: "nat \<Rightarrow> char" where
  "digit_char d = ''0123456789abcdef'' ! d"

text \<open>\<open>str(n)\<close> on an integer: its decimal digits, with a sign when negative.\<close>

function str_nat :: "nat \<Rightarrow> string" where
  "str_nat n = (if n < 10 then [digit_char n] else str_nat (n div 10) @ [digit_char (n mod 10)])"
  by pat_completeness auto
termination
  by (relation "measure id") auto

declare str_nat.simps [simp del]

definition str :: "int \<Rightarrow> string" where
  "str i = (if i < 0 then CHR ''-'' # str_nat (nat (- i)) else str_nat (nat i))"

text \<open>\<open>"{0:08b}".format(n)\<close> on a natural number: its binary digits, filled with
  zeros on the left up to eight characters (and longer than eight when \<open>n\<close> needs more).\<close>

function bin_nat :: "nat \<Rightarrow> string" where
  "bin_nat n = (if n < 2 then [digit_char n] else bin_nat (n div 2) @ [digit_char (n mod 2)])"
  by pat_completeness auto
termination
  by (relation "measure id") auto

declare bin_nat.simps [simp del]

definition format_08b :: "nat \<Rightarrow> string" where
  "format_08b n = replicate (8 - length (bin_nat n)) CHR ''0'' @ bin_nat n"

text \<open>
  \<open>int(s, 2)\<close> on a string of binary digits. Every other string is a \<open>ValueError\<close>
  here; Python also reads a sign, surrounding blanks, single underscores and a
  \<open>0b\<close> prefix, none of which can occur in a string assembled from the codes of the
  encoding table and the padding.
\<close>

definition is_bit :: "char \<Rightarrow> bool" where
  "is_bit c = (c = CHR ''0'' \<or> c = CHR ''1'')"

definition bits_value :: "string \<Rightarrow> nat" where
  "bits_value s = foldl (\<lambda>acc c. 2 * acc + (if c = CHR ''1'' then 1 else 0)) 0 s"

definition int_base2 :: "string \<Rightarrow> error + nat" where
  "int_base2 s =
     (if s \<noteq> [] \<and> list_all is_bit s then Inr (bits_value s) else Inl ValueError)"

text \<open>\<open>bytearray.append(v)\<close> accepts \<open>0 \<le> v < 256\<close> only.\<close>

type_synonym byte = "8 word"

definition bytearray_append :: "byte list \<Rightarrow> nat \<Rightarrow> error + byte list" where
  "bytearray_append b v = (if v < 256 then Inr (b @ [of_nat v]) else Inl ValueError)"

section \<open>Node.py\<close>

text \<open>
  A \<open>Node\<close> has the fields \<open>char\<close>, \<open>frequency\<close>, \<open>left\<close>, \<open>right\<close>, \<open>parent\<close>
  and \<open>code\<close>. The \<open>parent\<close> field is a back-reference that is written by
  \<open>__merge_nodes\<close> and read nowhere; a value of a datatype cannot hold it, and the model
  leaves it out. Nodes are compared by identity in Python (\<open>Node\<close> defines \<open>__lt__\<close>
  only); the nodes of a working list always hold different symbols, so that equality of
  values is identity there.
\<close>

datatype 'a node =
  Node (char: "'a option") (frequency: int) (left: "'a node option")
       (right: "'a node option") (code: string)

definition set_code :: "'a node \<Rightarrow> string \<Rightarrow> 'a node" where
  "set_code n c = Node (char n) (frequency n) (left n) (right n) c"

section \<open>Compressor.py\<close>

record 'a compressor =
  path :: string
  alphabet_frequency :: "('a, int) dict"
  encoding_table :: "('a, string) dict"

definition init :: "string \<Rightarrow> 'a compressor" where
  "init p = \<lparr>path = p, alphabet_frequency = [], encoding_table = []\<rparr>"

subsection \<open>Frequency analysis\<close>

text \<open>
  \<open>content\<close> is the sequence of characters that reading the file at \<open>self.path\<close> yields,
  one \<open>f.read(1)\<close> after the other.
\<close>

definition count_chars :: "'a list \<Rightarrow> ('a, int) dict" where
  "count_chars content =
     fold (\<lambda>char af. AList.update char (dict_get af char 0 + 1) af) content []"

definition create_alphabet_frequency :: "'a::linorder list \<Rightarrow> ('a, int) dict" where
  "create_alphabet_frequency content =
     (let alphabet_frequency = count_chars content;
          alphabet_frequency = dict_of_items (sort_key fst alphabet_frequency);
          alphabet_frequency = dict_of_items (sort_key snd alphabet_frequency)
      in alphabet_frequency)"

subsection \<open>Tree construction\<close>

definition scan_two :: "'a node \<Rightarrow> 'a node \<times> 'a node \<Rightarrow> 'a node \<times> 'a node" where
  "scan_two nd m =
     (case m of (min_node1, min_node2) \<Rightarrow>
        if frequency nd < frequency min_node1 then (nd, min_node1)
        else if frequency nd < frequency min_node2 then (min_node1, nd)
        else (min_node1, min_node2))"

fun get_two_smallest_nodes :: "'a node list \<Rightarrow> error + ('a node \<times> 'a node)" where
  "get_two_smallest_nodes (n0 # n1 # rest) =
     Inr (fold scan_two rest
            (if frequency n1 < frequency n0 then (n1, n0) else (n0, n1)))"
| "get_two_smallest_nodes _ = Inl IndexError"

definition merge_nodes :: "'a node list \<Rightarrow> 'a node \<Rightarrow> 'a node \<Rightarrow> error + 'a node list" where
  "merge_nodes nodes min_node1 min_node2 =
     (let parent = Node None (frequency min_node1 + frequency min_node2)
                     (Some (set_code min_node1 ''0'')) (Some (set_code min_node2 ''1'')) []
      in case list_remove nodes min_node1 of
           Inl e \<Rightarrow> Inl e
         | Inr nodes1 \<Rightarrow>
             (case list_remove nodes1 min_node2 of
                Inl e \<Rightarrow> Inl e
              | Inr nodes2 \<Rightarrow> Inr (nodes2 @ [parent])))"

fun initial_nodes :: "('a, int) dict \<Rightarrow> 'a list \<Rightarrow> 'a node list \<Rightarrow> error + 'a node list" where
  "initial_nodes af [] nodes = Inr nodes"
| "initial_nodes af (c # cs) nodes =
     (case dict_getitem af c of
        Inl e \<Rightarrow> Inl e
      | Inr f \<Rightarrow> initial_nodes af cs (nodes @ [Node (Some c) f None None []]))"

function merge_loop :: "'a node list \<Rightarrow> error + 'a node list" where
  "merge_loop nodes =
     (if length nodes > 1
      then (case get_two_smallest_nodes (sort_key frequency nodes) of
              Inl e \<Rightarrow> Inl e
            | Inr (min_node1, min_node2) \<Rightarrow>
                (case merge_nodes (sort_key frequency nodes) min_node1 min_node2 of
                   Inl e \<Rightarrow> Inl e
                 | Inr nodes' \<Rightarrow> merge_loop nodes'))
      else Inr nodes)"
  by pat_completeness auto

termination
proof (relation "measure length")
  show "wf (measure length)" by simp
next
  fix nodes :: "'a node list" and x min_node1 min_node2 nodes'
  assume m: "merge_nodes (sort_key frequency nodes) min_node1 min_node2 = Inr nodes'"
  obtain nodes1 where r1: "list_remove (sort_key frequency nodes) min_node1 = Inr nodes1"
    and r2: "list_remove nodes1 min_node2 = Inr (butlast nodes')" and ne: "nodes' \<noteq> []"
    using m by (auto simp: merge_nodes_def Let_def split: sum.splits)
  have in1: "min_node1 \<in> set (sort_key frequency nodes)"
    and eq1: "nodes1 = remove1 min_node1 (sort_key frequency nodes)"
    using r1 by (auto simp: list_remove_def split: if_splits)
  have in2: "min_node2 \<in> set nodes1" and eq2: "butlast nodes' = remove1 min_node2 nodes1"
    using r2 by (auto simp: list_remove_def split: if_splits)
  have l1: "length nodes1 = length nodes - 1"
    using in1 eq1 by (simp add: length_remove1)
  have "0 < length nodes" using in1 length_pos_if_in_set by fastforce
  moreover have "0 < length nodes1" using in2 by (rule length_pos_if_in_set)
  moreover have "length nodes' - 1 = length nodes1 - 1"
    using in2 eq2 length_butlast [of nodes'] by (simp add: length_remove1)
  moreover have "0 < length nodes'" using ne by simp
  ultimately have "length nodes' < length nodes" using l1 by linarith
  then show "(nodes', nodes) \<in> measure length" by simp
qed

declare merge_loop.simps [simp del]

definition create_tree :: "('a, int) dict \<Rightarrow> error + 'a node" where
  "create_tree af =
     (case initial_nodes af (map fst af) [] of
        Inl e \<Rightarrow> Inl e
      | Inr nodes \<Rightarrow>
          (case merge_loop nodes of
             Inl e \<Rightarrow> Inl e
           | Inr nodes' \<Rightarrow> (case nodes' of [] \<Rightarrow> Inl IndexError | root # _ \<Rightarrow> Inr root)))"

subsection \<open>Encoding table\<close>

fun build_encoding_table :: "'a node \<Rightarrow> string \<Rightarrow> ('a, string) dict \<Rightarrow> ('a, string) dict" where
  "build_encoding_table (Node ch f l r cd) code_acc tbl =
     (case ch of
        Some c \<Rightarrow> AList.update c code_acc tbl
      | None \<Rightarrow>
          (let tbl1 = (case l of None \<Rightarrow> tbl
                       | Some ln \<Rightarrow> build_encoding_table ln (code_acc @ ''0'') tbl)
           in (case r of None \<Rightarrow> tbl1
               | Some rn \<Rightarrow> build_encoding_table rn (code_acc @ ''1'') tbl1)))"

subsection \<open>Frequency sidecar\<close>

text \<open>
  The text written to the frequency file, one \<open>write\<close> after the other, with the
  exception that stopped the writing, if any. \<open>repr\<close> is Python's \<open>repr\<close> on the
  one-character strings that are the symbols.
\<close>

fun write_freq_lines ::
  "('a \<Rightarrow> string) \<Rightarrow> ('a, int) dict \<Rightarrow> 'a list \<Rightarrow> string \<Rightarrow> error option \<times> string" where
  "write_freq_lines repr af [] out = (None, out)"
| "write_freq_lines repr af (c # cs) out =
     (let out1 = out @ (slice_1_m1 (repr c) @ '' '')
      in case dict_getitem af c of
           Inl e \<Rightarrow> (Some e, out1)
         | Inr f \<Rightarrow> write_freq_lines repr af cs (out1 @ (str f @ [CHR 0x0A])))"

definition write_alphabet_frequency ::
  "('a \<Rightarrow> string) \<Rightarrow> ('a, int) dict \<Rightarrow> error option \<times> string" where
  "write_alphabet_frequency repr af =
     write_freq_lines repr af (map fst af) (str (int (length af)) @ [CHR 0x0A])"

subsection \<open>Bit packing\<close>

definition pad_encoded_text :: "string \<Rightarrow> string" where
  "pad_encoded_text encoded_text =
     (let extra_padding = 8 - length encoded_text mod 8;
          encoded_text1 = fold (\<lambda>i t. t @ ''0'') [0..<extra_padding] encoded_text;
          padded_info = format_08b extra_padding
      in padded_info @ encoded_text1)"

fun encode_loop :: "('a, string) dict \<Rightarrow> 'a list \<Rightarrow> string \<Rightarrow> error + string" where
  "encode_loop tbl [] binary_code = Inr binary_code"
| "encode_loop tbl (c # cs) binary_code =
     (case dict_getitem tbl c of
        Inl e \<Rightarrow> Inl e
      | Inr cd \<Rightarrow> encode_loop tbl cs (binary_code @ cd))"

definition encode :: "('a, string) dict \<Rightarrow> 'a list \<Rightarrow> error + string" where
  "encode tbl content =
     (case encode_loop tbl content [] of
        Inl e \<Rightarrow> Inl e
      | Inr binary_code \<Rightarrow> Inr (pad_encoded_text binary_code))"

fun byte_loop :: "string \<Rightarrow> nat list \<Rightarrow> byte list \<Rightarrow> error + byte list" where
  "byte_loop text [] b = Inr b"
| "byte_loop text (i # is) b =
     (case int_base2 (slice text i (i + 8)) of
        Inl e \<Rightarrow> Inl e
      | Inr v \<Rightarrow>
          (case bytearray_append b v of
             Inl e \<Rightarrow> Inl e
           | Inr b' \<Rightarrow> byte_loop text is b'))"

definition get_byte_array :: "string \<Rightarrow> error + byte list" where
  "get_byte_array text =
     (if length text mod 8 \<noteq> 0
      then Inl (SystemExit ''Encoded text not padded properly'' 0)
      else byte_loop text (range_step 0 (length text) 8) [])"

subsection \<open>The whole run\<close>

text \<open>
  \<open>__write_compressed_file\<close> encodes first and opens the output afterwards, so an
  exception of \<open>__encode\<close> leaves no file (\<open>None\<close>). \<open>write_payload\<close> is its
  \<open>with\<close> block: the file is opened for writing, which empties it, before
  \<open>__get_byte_array\<close> is called, so an exception or exit there leaves the file empty.
\<close>

definition write_payload :: "string \<Rightarrow> error option \<times> byte list option" where
  "write_payload binary_code =
     (case get_byte_array binary_code of
        Inl e \<Rightarrow> (Some e, Some [])
      | Inr b \<Rightarrow> (None, Some b))"

definition write_compressed_file ::
  "'a compressor \<Rightarrow> 'a list \<Rightarrow> error option \<times> byte list option" where
  "write_compressed_file self file_content =
     (case encode (encoding_table self) file_content of
        Inl e \<Rightarrow> (Some e, None)
      | Inr binary_code \<Rightarrow> write_payload binary_code)"

definition get_output_path :: "string \<Rightarrow> string \<times> string" where
  "get_output_path entry_path =
     (let bin_path = str_replace entry_path ''.txt'' ''_comp.bin'';
          freq_path = str_replace entry_path ''.txt'' ''_freq.txt''
      in (bin_path, freq_path))"

text \<open>
  One call of \<open>compress\<close>: the exception that ended it (if any), the object's fields
  afterwards, the text that \<open>__write_alphabet_frequency\<close> has written to \<open>freq_path\<close>
  and the bytes that \<open>__write_compressed_file\<close> has left at \<open>bin_path\<close> (\<open>None\<close> for a
  file that was not opened). \<open>content\<close> is the text of the file at \<open>self.path\<close> when the
  run starts. The file is read twice: by \<open>__create_alphabet_frequency\<close> at the start, and
  by \<open>__write_compressed_file\<close> after the frequency file has been written (through
  \<open>read_file\<close> of \<open>utils\<close>, whose source is not among the files; it is taken to return
  the text of the file). When \<open>self.path\<close> has no \<open>.txt\<close> in it, \<open>freq_path\<close> is
  \<open>self.path\<close> itself, and the second reading yields the frequency text that has just
  replaced the input; \<open>symbol_of\<close> gives the symbol that a character of that text
  is. The two \<open>print\<close> calls at the end (the compression ratio and the average code
  length, floating-point numbers computed from the sizes of the files) write no file and
  are not modelled.
\<close>

record 'a run =
  raised :: "error option"
  self_after :: "'a compressor"
  freq_file :: "string option"
  bin_file :: "byte list option"

definition compress ::
  "('a::linorder \<Rightarrow> string) \<Rightarrow> (char \<Rightarrow> 'a) \<Rightarrow> 'a compressor \<Rightarrow> 'a list \<Rightarrow> 'a run" where
  "compress repr symbol_of self content =
     (case get_output_path (path self) of
        (bin_path, freq_path) \<Rightarrow>
          (let af = create_alphabet_frequency content;
               self1 = self\<lparr>alphabet_frequency := af\<rparr>
           in case create_tree af of
                Inl e \<Rightarrow>
                  \<lparr>raised = Some e, self_after = self1, freq_file = None, bin_file = None\<rparr>
              | Inr tree \<Rightarrow>
                  (let self2 = self1\<lparr>encoding_table :=
                                 build_encoding_table tree [] (encoding_table self1)\<rparr>
                   in case write_alphabet_frequency repr af of
                        (Some e, txt) \<Rightarrow>
                          \<lparr>raised = Some e, self_after = self2,
                           freq_file = Some txt, bin_file = None\<rparr>
                      | (None, txt) \<Rightarrow>
                          (let file_content =
                                 (if freq_path = path self then map symbol_of txt else content)
                           in case write_compressed_file self2 file_content of
                                (r, b) \<Rightarrow>
                                  \<lparr>raised = r, self_after = self2,
                                   freq_file = Some txt, bin_file = b\<rparr>))))"

subsection \<open>Python's \<open>repr\<close> on one character\<close>

text \<open>
  \<open>repr\<close> of a one-character string whose code point is below 256: the quote is
  \<open>"\<close> when the character is \<open>'\<close> and \<open>'\<close> otherwise; a backslash is doubled;
  tab, newline and carriage return become \<open>\t\<close>, \<open>\n\<close>, \<open>\r\<close>; the other
  characters that are not printable (below 0x20, 0x7f to 0xa0, and 0xad) become
  \<open>\xhh\<close>; every other character stands for itself.
\<close>

definition hex_escape :: "nat \<Rightarrow> string" where
  "hex_escape n = [CHR 0x5C, CHR ''x'', digit_char (n div 16), digit_char (n mod 16)]"

definition repr_char :: "char \<Rightarrow> string" where
  "repr_char c =
     (let quote = (if c = CHR 0x27 then CHR 0x22 else CHR 0x27);
          n = (of_char c :: nat);
          body = (if c = quote \<or> c = CHR 0x5C then [CHR 0x5C, c]
                  else if c = CHR 0x09 then [CHR 0x5C, CHR ''t'']
                  else if c = CHR 0x0A then [CHR 0x5C, CHR ''n'']
                  else if c = CHR 0x0D then [CHR 0x5C, CHR ''r'']
                  else if n < 0x20 \<or> n = 0x7F then hex_escape n
                  else if n < 0x7F then [c]
                  else if n \<le> 0xA0 \<or> n = 0xAD then hex_escape n
                  else [c])
      in quote # body @ [quote])"

section \<open>Notions of the specification\<close>

text \<open>
  The pairs (symbol, number of occurrences) of a text, one pair per distinct symbol, and
  the order the specification gives them: sorted by symbol, then sorted again, stably,
  by frequency. Put together, a pair comes before another when its frequency is smaller,
  or the frequencies are equal and its symbol is smaller.
\<close>

definition symbol_counts :: "'a list \<Rightarrow> ('a \<times> int) list" where
  "symbol_counts content = map (\<lambda>c. (c, int (count_list content c))) (remdups content)"

definition two_stage_sort :: "('a::linorder \<times> int) list \<Rightarrow> ('a \<times> int) list" where
  "two_stage_sort ps = sort_key snd (sort_key fst ps)"

definition freq_symbol_order :: "'a::linorder \<times> int \<Rightarrow> 'a \<times> int \<Rightarrow> bool" where
  "freq_symbol_order p q = (snd p < snd q \<or> (snd p = snd q \<and> fst p < fst q))"

text \<open>
  The layout of the frequency file that the specification gives: the number of symbols
  on the first line, then one line per entry, the escaped symbol, a blank and the
  frequency. \<open>dec_value\<close> reads a string of decimal digits.
\<close>

definition freq_line :: "('a \<Rightarrow> string) \<Rightarrow> 'a \<times> int \<Rightarrow> string" where
  "freq_line repr p = slice_1_m1 (repr (fst p)) @ '' '' @ str (snd p) @ [CHR 0x0A]"

definition sidecar_text :: "('a \<Rightarrow> string) \<Rightarrow> ('a, int) dict \<Rightarrow> string" where
  "sidecar_text repr af = str (int (length af)) @ [CHR 0x0A] @ concat (map (freq_line repr) af)"

definition is_digit :: "char \<Rightarrow> bool" where
  "is_digit c = (c \<in> set ''0123456789'')"

definition dec_value :: "string \<Rightarrow> nat" where
  "dec_value s = foldl (\<lambda>acc c. 10 * acc + (of_char c - 48)) 0 s"

text \<open>One step of the counting loop of \<open>__create_alphabet_frequency\<close>.\<close>

abbreviation count_step :: "'a \<Rightarrow> ('a, int) dict \<Rightarrow> ('a, int) dict" where
  "count_step \<equiv> (\<lambda>char af. AList.update char (dict_get af char 0 + 1) af)"

text \<open>The leaf that \<open>__create_tree\<close> makes of one entry of the frequency map.\<close>

definition leaf :: "'a \<times> int \<Rightarrow> 'a node" where
  "leaf p = Node (Some (fst p)) (snd p) None None []"

text \<open>
  What the traversal of \<open>__build_encoding_table\<close> does to a tree: the symbols it
  reaches, in the order of the visit, and the assignments
  \<open>self.encoding_table[char] = code\<close> it makes. \<open>all_symbols\<close> collects the symbols of
  all the trees of a working list, \<open>prefix_free\<close> is the property of a table that no
  code is a prefix of the code of another symbol, and two entries are
  \<open>incomparable\<close> when neither code is a prefix of the other.
\<close>

fun symbols :: "'a node \<Rightarrow> 'a list" where
  "symbols (Node ch f l r cd) =
     (case ch of
        Some c \<Rightarrow> [c]
      | None \<Rightarrow> (case l of None \<Rightarrow> [] | Some ln \<Rightarrow> symbols ln)
                @ (case r of None \<Rightarrow> [] | Some rn \<Rightarrow> symbols rn))"

fun assignments :: "'a node \<Rightarrow> string \<Rightarrow> ('a \<times> string) list" where
  "assignments (Node ch f l r cd) code_acc =
     (case ch of
        Some c \<Rightarrow> [(c, code_acc)]
      | None \<Rightarrow> (case l of None \<Rightarrow> [] | Some ln \<Rightarrow> assignments ln (code_acc @ ''0''))
                @ (case r of None \<Rightarrow> [] | Some rn \<Rightarrow> assignments rn (code_acc @ ''1'')))"

definition all_symbols :: "'a node list \<Rightarrow> 'a multiset" where
  "all_symbols nodes = (\<Sum>n\<in>#mset nodes. mset (symbols n))"

definition prefix_free :: "('a \<times> string) list \<Rightarrow> bool" where
  "prefix_free tbl = (\<forall>(a, ca) \<in> set tbl. \<forall>(b, cb) \<in> set tbl. a \<noteq> b \<longrightarrow> \<not> prefix ca cb)"

definition incomparable :: "'a \<times> string \<Rightarrow> 'a \<times> string \<Rightarrow> bool" where
  "incomparable p q = (\<not> prefix (snd p) (snd q) \<and> \<not> prefix (snd q) (snd p))"

section \<open>Evaluation and arithmetic of the Python helpers\<close>

lemma replicate_numeral: "replicate (numeral k) x = x # replicate (pred_numeral k) x"
  by (simp add: numeral_eq_Suc)

lemma upt_0_numeral: "[0..<numeral k] = [0..<pred_numeral k] @ [pred_numeral k]"
  by (simp add: numeral_eq_Suc)

lemmas eval_simps =
  replicate_numeral upt_0_numeral bin_nat.simps str_nat.simps digit_char_def format_08b_def

lemma digit_char_bit: "d < 2 \<Longrightarrow> digit_char d = (if d = 1 then CHR ''1'' else CHR ''0'')"
  by (cases d) (auto simp: digit_char_def)

lemma fold_append_zero:
  "fold (\<lambda>i t. t @ ''0'') xs t = t @ replicate (length xs) CHR ''0''"
  by (induction xs arbitrary: t) (simp_all add: replicate_app_Cons_same)

lemma pad_encoded_text_eq:
  "pad_encoded_text t =
     format_08b (8 - length t mod 8) @ t @ replicate (8 - length t mod 8) CHR ''0''"
  by (simp add: pad_encoded_text_def Let_def fold_append_zero)

lemma bits_value_snoc:
  "bits_value (s @ [c]) = 2 * bits_value s + (if c = CHR ''1'' then 1 else 0)"
  by (simp add: bits_value_def)

lemma bits_value_zeros: "bits_value (replicate k CHR ''0'' @ s) = bits_value s"
proof -
  have "foldl (\<lambda>acc c. 2 * acc + (if c = CHR ''1'' then 1 else 0)) (0::nat) (replicate k CHR ''0'') = 0"
    by (induction k) simp_all
  then show ?thesis by (simp add: bits_value_def)
qed

lemma is_bit_digit_char: "d < 2 \<Longrightarrow> is_bit (digit_char d)"
  by (simp add: digit_char_bit is_bit_def)

lemma bin_nat_bits: "list_all is_bit (bin_nat n)"
proof (induction n rule: bin_nat.induct)
  case (1 n)
  show ?case
  proof (cases "n < 2")
    case True
    then show ?thesis by (subst bin_nat.simps) (simp add: is_bit_digit_char)
  next
    case False
    then show ?thesis using 1
      by (subst bin_nat.simps) (simp add: is_bit_digit_char)
  qed
qed

lemma bin_nat_value: "bits_value (bin_nat n) = n"
proof (induction n rule: bin_nat.induct)
  case (1 n)
  show ?case
  proof (cases "n < 2")
    case True
    then show ?thesis
      by (subst bin_nat.simps) (auto simp: digit_char_bit bits_value_def)
  next
    case False
    then have ih: "bits_value (bin_nat (n div 2)) = n div 2" using 1 by simp
    have step: "bin_nat n = bin_nat (n div 2) @ [digit_char (n mod 2)]"
      using False by (subst bin_nat.simps) simp
    have "(if digit_char (n mod 2) = CHR ''1'' then 1 else 0) = n mod 2"
      by (simp add: digit_char_bit)
    then have "bits_value (bin_nat n) = 2 * (n div 2) + n mod 2"
      by (simp only: step bits_value_snoc ih)
    then show ?thesis by simp
  qed
qed

lemma bin_nat_nonempty: "bin_nat n \<noteq> []"
  by (subst bin_nat.simps) simp

lemma bin_nat_length: "n < 2 ^ k \<Longrightarrow> 0 < k \<Longrightarrow> length (bin_nat n) \<le> k"
proof (induction n arbitrary: k rule: bin_nat.induct)
  case (1 n)
  show ?case
  proof (cases "n < 2")
    case True
    then show ?thesis using 1(3) by (subst bin_nat.simps) simp
  next
    case False
    obtain j where kj: "k = Suc j" using 1(3) by (cases k) auto
    have "j \<noteq> 0"
    proof
      assume "j = 0"
      then have "n < 2" using 1(2) kj by simp
      with False show False by simp
    qed
    then have k: "k = Suc j" "0 < j" using kj by auto
    have "n div 2 < 2 ^ j" using 1(2) k by auto
    then have "length (bin_nat (n div 2)) \<le> j" using 1(1) False k by simp
    then show ?thesis using False k by (subst bin_nat.simps) simp
  qed
qed

lemma format_08b_length: "n < 256 \<Longrightarrow> length (format_08b n) = 8"
  using bin_nat_length [of n 8] by (simp add: format_08b_def)

lemma format_08b_bits: "list_all is_bit (format_08b n)"
proof -
  have "list_all is_bit (replicate k CHR ''0'')" for k
    by (simp add: list_all_iff is_bit_def)
  then show ?thesis by (simp add: format_08b_def bin_nat_bits)
qed
  
lemma format_08b_value: "int_base2 (format_08b n) = Inr n"
proof -
  have "format_08b n \<noteq> []" by (simp add: format_08b_def bin_nat_nonempty)
  moreover have "bits_value (format_08b n) = n"
    by (simp add: format_08b_def bits_value_zeros bin_nat_value)
  ultimately show ?thesis
    using format_08b_bits [of n] by (simp add: int_base2_def)
qed

lemma extra_range: "1 \<le> 8 - length (t::string) mod 8 \<and> 8 - length t mod 8 \<le> 8"
  by (simp add: Suc_leI)

lemma pad_length: "length (pad_encoded_text t) = 8 + length t + (8 - length t mod 8)"
  by (simp add: pad_encoded_text_eq format_08b_length)

lemma pad_length_mod: "length (pad_encoded_text t) mod 8 = 0"
proof -
  have "length t mod 8 < 8" by simp
  then have "8 + length t + (8 - length t mod 8) = 8 * (length t div 8) + 16"
    using mult_div_mod_eq [of 8 "length t"] by linarith
  then have "8 + length t + (8 - length t mod 8) = 8 * (length t div 8 + 2)"
    by simp
  then show ?thesis by (simp only: pad_length mod_mult_self1_is_0)
qed

lemma byte_loop_not_exit: "byte_loop text is b \<noteq> Inl (SystemExit msg st)"
  by (induction "is" arbitrary: b)
     (auto simp: int_base2_def bytearray_append_def split: sum.splits if_splits)

text \<open>
  Claim C4. For every encoded bit string, the padder appends exactly
  \<open>extra = 8 - (length mod 8)\<close> zero bits and puts the eight binary digits of
  \<open>extra\<close> (most significant first) in front; \<open>extra\<close> is 8, a whole byte of zeros,
  exactly when the length is already a multiple of 8.
\<close>

theorem pad_encoded_text_layout:
  "pad_encoded_text t =
     format_08b (8 - length t mod 8) @ t @ replicate (8 - length t mod 8) CHR ''0''
   \<and> length (format_08b (8 - length t mod 8)) = 8
   \<and> int_base2 (format_08b (8 - length t mod 8)) = Inr (8 - length t mod 8)
   \<and> ((8 - length t mod 8 = 8) = (length t mod 8 = 0))"
  by (simp add: pad_encoded_text_eq [symmetric] format_08b_length format_08b_value) arith

theorem pad_encoded_text_layout_witness:
  "pad_encoded_text ''10101010'' = ''00001000'' @ ''10101010'' @ ''00000000''"
  using pad_encoded_text_layout [of "''10101010''"] by (simp add: eval_simps)

text \<open>
  Claim C10. The padder's output has length \<open>8 + length + extra\<close> with
  \<open>extra = 8 - (length mod 8)\<close> between 1 and 8, so the output length is a multiple
  of 8, the header never reads 0, and \<open>__get_byte_array\<close> never takes its
  "not padded properly" exit on it.
\<close>

theorem pad_output_aligned:
  "length (pad_encoded_text t) = 8 + length t + (8 - length t mod 8)
   \<and> 1 \<le> 8 - length t mod 8 \<and> 8 - length t mod 8 \<le> 8
   \<and> length (pad_encoded_text t) mod 8 = 0
   \<and> int_base2 (take 8 (pad_encoded_text t)) = Inr (8 - length t mod 8)
   \<and> int_base2 (take 8 (pad_encoded_text t)) \<noteq> Inr 0
   \<and> get_byte_array (pad_encoded_text t) \<noteq> Inl (SystemExit msg st)"
proof -
  have hd: "take 8 (pad_encoded_text t) = format_08b (8 - length t mod 8)"
    by (simp add: pad_encoded_text_eq format_08b_length)
  have "get_byte_array (pad_encoded_text t) \<noteq> Inl (SystemExit msg st)"
    by (simp add: get_byte_array_def pad_length_mod byte_loop_not_exit)
  moreover have "int_base2 (take 8 (pad_encoded_text t)) = Inr (8 - length t mod 8)"
    by (simp only: hd format_08b_value)
  moreover have "Inr (8 - length t mod 8) \<noteq> (Inr 0 :: error + nat)"
    using extra_range [of t] by simp
  ultimately show ?thesis
    using extra_range [of t] pad_length [of t] pad_length_mod [of t] by metis
qed

text \<open>
  Claim C3, as the code has it. When the length of the bit string is not a multiple of 8,
  \<open>__get_byte_array\<close> returns no error to its caller: its guard prints
  \<open>Encoded text not padded properly\<close> and calls \<open>exit(0)\<close>, so the process ends there
  with status 0, the status of a run without error. No byte is grouped or returned, and
  the payload file, opened before the call, is left empty.
\<close>

theorem misaligned_exit_counterexample:
  "get_byte_array ''101'' = Inl (SystemExit ''Encoded text not padded properly'' 0)
   \<and> (case get_byte_array ''101'' of Inl e \<Rightarrow> exit_status e | Inr b \<Rightarrow> 1) = 0"
  by (simp add: get_byte_array_def)

theorem get_byte_array_exit:
  "length text mod 8 \<noteq> 0 \<Longrightarrow>
     get_byte_array text = Inl (SystemExit ''Encoded text not padded properly'' 0)
     \<and> exit_status (SystemExit ''Encoded text not padded properly'' 0) = 0
     \<and> write_payload text = (Some (SystemExit ''Encoded text not padded properly'' 0), Some [])"
  by (simp add: get_byte_array_def write_payload_def)

theorem get_byte_array_exit_witness:
  "length ''1110000'' mod 8 \<noteq> 0
   \<and> get_byte_array ''1110000'' = Inl (SystemExit ''Encoded text not padded properly'' 0)
   \<and> write_payload ''1110000'' =
       (Some (SystemExit ''Encoded text not padded properly'' 0), Some [])"
  using get_byte_array_exit [of "''1110000''"] by simp

subsection \<open>The paths of the two files\<close>

lemma str_replace_length:
  assumes "old \<noteq> []" and "length old < length new"
  shows "length s \<le> length (str_replace s old new)
    \<and> (sublist old s \<longrightarrow> length s < length (str_replace s old new))"
proof (induction "length s" arbitrary: s rule: less_induct)
  case less
  show ?case
  proof (cases s)
    case Nil
    then show ?thesis using assms(1) by (subst str_replace.simps, subst str_replace.simps) simp
  next
    case (Cons c cs)
    show ?thesis
    proof (cases "prefix old s")
      case True
      then have len: "length old \<le> length s" by (rule prefix_length_le)
      have "length (drop (length old) s) < length s" using assms(1) Cons by simp
      then have "length (drop (length old) s)
                   \<le> length (str_replace (drop (length old) s) old new)"
        using less by blast
      moreover have "str_replace s old new = new @ str_replace (drop (length old) s) old new"
        using True assms(1) Cons by (subst str_replace.simps) simp
      ultimately have "length s < length (str_replace s old new)"
        using len assms(2) by simp
      then show ?thesis by simp
    next
      case False
      have ih: "length cs \<le> length (str_replace cs old new)
          \<and> (sublist old cs \<longrightarrow> length cs < length (str_replace cs old new))"
        using less [of cs] Cons by simp
      have r: "str_replace s old new = c # str_replace cs old new"
        using False assms(1) Cons by (subst str_replace.simps) simp
      have "sublist old cs" if "sublist old s"
        using that False Cons by (simp add: sublist_Cons_right)
      then show ?thesis using ih r Cons by auto
    qed
  qed
qed

lemma freq_path_not_input:
  assumes "sublist ''.txt'' p"
  shows "snd (get_output_path p) \<noteq> p"
proof -
  have "length p < length (str_replace p ''.txt'' ''_freq.txt'')"
    using str_replace_length [of "''.txt''" "''_freq.txt''" p] assms by simp
  then show ?thesis by (auto simp: get_output_path_def Let_def)
qed

section \<open>Runs on concrete inputs\<close>

lemmas run_simps =
  count_chars_def create_alphabet_frequency_def dict_of_items_def dict_get_def
  dict_getitem_def create_tree_def merge_loop.simps merge_nodes_def list_remove_def
  set_code_def scan_two_def write_alphabet_frequency_def slice_1_m1_def
  encode_def pad_encoded_text_eq get_byte_array_def range_step_def slice_def
  int_base2_def bits_value_def is_bit_def bytearray_append_def write_compressed_file_def
  write_payload_def compress_def init_def str_def Let_def

lemma aaab_af: "create_alphabet_frequency ''aaab'' = [(CHR ''b'', 1), (CHR ''a'', 3)]"
  by (simp add: run_simps)

lemma aaab_tree:
  "create_tree [(CHR ''b'', 1), (CHR ''a'', 3)] =
     Inr (Node None 4 (Some (Node (Some CHR ''b'') 1 None None ''0''))
                      (Some (Node (Some CHR ''a'') 3 None None ''1'')) [])"
  by (simp add: run_simps)

lemma aaab_table:
  "build_encoding_table
     (Node None 4 (Some (Node (Some CHR ''b'') 1 None None ''0''))
                  (Some (Node (Some CHR ''a'') 3 None None ''1'')) []) [] []
   = [(CHR ''b'', ''0''), (CHR ''a'', ''1'')]"
  by (simp add: run_simps)

lemma aaab_bits:
  "encode_loop [(CHR ''b'', ''0''), (CHR ''a'', ''1'')] ''aaab'' [] = Inr ''1110''"
  by (simp add: run_simps)

lemma aaab_pad: "pad_encoded_text ''1110'' = ''00000100'' @ ''11100000''"
  by (simp add: run_simps eval_simps)

lemma aaab_bytes: "get_byte_array ''0000010011100000'' = Inr [0x04, 0xE0]"
  by (simp add: run_simps eval_simps)

lemma aaab_sidecar:
  "write_alphabet_frequency repr_char [(CHR ''b'', 1), (CHR ''a'', 3)]
     = (None, [CHR ''2'', CHR 0x0A, CHR ''b'', CHR '' '', CHR ''1'', CHR 0x0A,
               CHR ''a'', CHR '' '', CHR ''3'', CHR 0x0A])"
  by (simp add: run_simps eval_simps repr_char_def)

lemma empty_tree: "create_tree ([] :: (char \<times> int) list) = Inl IndexError"
  by (simp add: run_simps)

lemma zzzz_af: "create_alphabet_frequency ''zzzz'' = [(CHR ''z'', 4)]"
  by (simp add: run_simps)

lemma zzzz_tree: "create_tree [(CHR ''z'', 4)] = Inr (Node (Some CHR ''z'') 4 None None [])"
  by (simp add: run_simps)

lemma aaab_paths: "get_output_path ''aaab.txt'' = (''aaab_comp.bin'', ''aaab_freq.txt'')"
  by (simp add: get_output_path_def str_replace.simps)

lemma zzzz_paths: "get_output_path ''zzzz.txt'' = (''zzzz_comp.bin'', ''zzzz_freq.txt'')"
  by (simp add: get_output_path_def str_replace.simps)

lemma aaab_run:
  "compress repr_char id (init ''aaab.txt'') ''aaab'' =
     \<lparr>raised = None,
      self_after = \<lparr>path = ''aaab.txt'',
                     alphabet_frequency = [(CHR ''b'', 1), (CHR ''a'', 3)],
                     encoding_table = [(CHR ''b'', ''0''), (CHR ''a'', ''1'')]\<rparr>,
      freq_file = Some [CHR ''2'', CHR 0x0A, CHR ''b'', CHR '' '', CHR ''1'', CHR 0x0A,
                        CHR ''a'', CHR '' '', CHR ''3'', CHR 0x0A],
      bin_file = Some [0x04, 0xE0]\<rparr>"
  by (simp add: compress_def init_def Let_def aaab_paths aaab_af aaab_tree aaab_table
        aaab_sidecar write_compressed_file_def write_payload_def encode_def aaab_bits aaab_pad
        aaab_bytes
      del: encode_loop.simps build_encoding_table.simps)

lemma zzzz_table:
  "build_encoding_table (Node (Some CHR ''z'') 4 None None []) [] [] = [(CHR ''z'', [])]"
  by simp

lemma zzzz_sidecar:
  "write_alphabet_frequency repr_char [(CHR ''z'', 4)]
     = (None, [CHR ''1'', CHR 0x0A, CHR ''z'', CHR '' '', CHR ''4'', CHR 0x0A])"
  by (simp add: run_simps eval_simps repr_char_def)

lemma zzzz_bits: "encode_loop [(CHR ''z'', [])] ''zzzz'' [] = Inr []"
  by (simp add: run_simps)

lemma empty_pad: "pad_encoded_text [] = ''00001000'' @ ''00000000''"
  by (simp add: run_simps eval_simps)

lemma empty_bytes: "get_byte_array ''0000100000000000'' = Inr [0x08, 0x00]"
  by (simp add: run_simps eval_simps)

lemma zzzz_run:
  "compress repr_char id (init ''zzzz.txt'') ''zzzz'' =
     \<lparr>raised = None,
      self_after = \<lparr>path = ''zzzz.txt'',
                     alphabet_frequency = [(CHR ''z'', 4)],
                     encoding_table = [(CHR ''z'', [])]\<rparr>,
      freq_file = Some [CHR ''1'', CHR 0x0A, CHR ''z'', CHR '' '', CHR ''4'', CHR 0x0A],
      bin_file = Some [0x08, 0x00]\<rparr>"
  by (simp add: compress_def init_def Let_def zzzz_paths zzzz_af zzzz_tree zzzz_table
        zzzz_sidecar write_compressed_file_def write_payload_def encode_def zzzz_bits empty_pad
        empty_bytes
      del: encode_loop.simps build_encoding_table.simps)

lemma empty_af: "create_alphabet_frequency ([] :: 'a::linorder list) = []"
  by (simp add: run_simps)

lemma create_tree_empty: "create_tree ([] :: ('a \<times> int) list) = Inl IndexError"
  by (simp add: run_simps)

text \<open>
  Claim C5. The run on \<open>"aaab"\<close>: the frequency map is \<open>{b: 1, a: 3}\<close>, the two leaves
  merge into a root of frequency 4 with \<open>b\<close> on the left (code \<open>"0"\<close>) and \<open>a\<close> on the
  right (code \<open>"1"\<close>), the text encodes to \<open>"1110"\<close>, the padded string with its header
  is \<open>"00000100" + "11100000"\<close>, and the bytes written are \<open>0x04, 0xE0\<close>.
\<close>

theorem aaab_scenario:
  "create_alphabet_frequency ''aaab'' = [(CHR ''b'', 1), (CHR ''a'', 3)]
   \<and> create_tree (create_alphabet_frequency ''aaab'') =
       Inr (Node None 4 (Some (Node (Some CHR ''b'') 1 None None ''0''))
                        (Some (Node (Some CHR ''a'') 3 None None ''1'')) [])
   \<and> encoding_table (self_after (compress repr_char id (init ''aaab.txt'') ''aaab'')) =
       [(CHR ''b'', ''0''), (CHR ''a'', ''1'')]
   \<and> encode_loop [(CHR ''b'', ''0''), (CHR ''a'', ''1'')] ''aaab'' [] = Inr ''1110''
   \<and> encode [(CHR ''b'', ''0''), (CHR ''a'', ''1'')] ''aaab'' = Inr (''00000100'' @ ''11100000'')
   \<and> bin_file (compress repr_char id (init ''aaab.txt'') ''aaab'') = Some [0x04, 0xE0]
   \<and> raised (compress repr_char id (init ''aaab.txt'') ''aaab'') = None"
  by (simp add: aaab_run aaab_af aaab_tree aaab_bits encode_def aaab_pad
      del: encode_loop.simps)

text \<open>
  Claim C1, at the input \<open>"zzzz"\<close>: the root of the tree is the leaf itself,
  \<open>__build_encoding_table\<close> is called with the empty code and stores it, so the table
  is \<open>{z: ""}\<close> and not \<open>{z: "0"}\<close>; nothing is encoded, and the payload is the header
  8 and one byte of padding.
\<close>

theorem single_symbol_empty_code:
  "create_tree (create_alphabet_frequency ''zzzz'') = Inr (Node (Some CHR ''z'') 4 None None [])
   \<and> encoding_table (self_after (compress repr_char id (init ''zzzz.txt'') ''zzzz'')) =
       [(CHR ''z'', [])]
   \<and> encoding_table (self_after (compress repr_char id (init ''zzzz.txt'') ''zzzz'')) \<noteq>
       [(CHR ''z'', ''0'')]
   \<and> bin_file (compress repr_char id (init ''zzzz.txt'') ''zzzz'') = Some [0x08, 0x00]"
  by (simp add: zzzz_run zzzz_af zzzz_tree)

text \<open>
  Claim C2, as the code has it. On the empty input the frequency map is empty, the merge
  loop does not run, and \<open>return nodes[0]\<close> raises Python's \<open>IndexError\<close>, which
  nothing catches; there is no check for an empty alphabet. The run ends there, before
  either file is opened.
\<close>

theorem empty_input_counterexample:
  "create_tree (create_alphabet_frequency '''') = Inl IndexError
   \<and> raised (compress repr_char id (init ''empty.txt'') '''') = Some IndexError"
  by (simp add: compress_def Let_def case_prod_beta empty_af create_tree_empty)

theorem empty_input_index_error:
  "create_tree (create_alphabet_frequency ([] :: 'a::linorder list)) = Inl IndexError
   \<and> compress repr symbol_of self ([] :: 'a list) =
       \<lparr>raised = Some IndexError, self_after = self\<lparr>alphabet_frequency := []\<rparr>,
        freq_file = None, bin_file = None\<rparr>"
  by (simp add: compress_def Let_def case_prod_beta empty_af create_tree_empty)

section \<open>Frequency analysis\<close>

subsection \<open>Dictionaries\<close>

lemma update_fresh: "k \<notin> fst ` set al \<Longrightarrow> AList.update k v al = al @ [(k, v)]"
  by (induction al) auto

lemma fold_update_distinct:
  "distinct (map fst (acc @ xs)) \<Longrightarrow>
     fold (\<lambda>(k, v) d. AList.update k v d) xs acc = acc @ xs"
proof (induction xs arbitrary: acc)
  case Nil
  then show ?case by simp
next
  case (Cons x xs)
  obtain k v where x: "x = (k, v)" by (cases x)
  have fresh: "k \<notin> fst ` set acc" using Cons.prems x by auto
  have "distinct (map fst ((acc @ [(k, v)]) @ xs))" using Cons.prems x by simp
  then have "fold (\<lambda>(k, v) d. AList.update k v d) xs (acc @ [(k, v)]) = (acc @ [(k, v)]) @ xs"
    by (rule Cons.IH)
  then show ?case using x fresh by (simp add: update_fresh)
qed

lemma dict_of_items_distinct: "distinct (map fst xs) \<Longrightarrow> dict_of_items xs = xs"
  using fold_update_distinct [of "[]" xs] by (simp add: dict_of_items_def)

lemma distinct_keys_sort_key:
  "distinct (map fst (sort_key f xs)) = distinct (map fst xs)"
  by (simp add: distinct_map)

subsection \<open>Counting\<close>

lemma count_fold_distinct:
  "distinct (map fst af) \<Longrightarrow> distinct (map fst (fold count_step content af))"
  by (induction content arbitrary: af) (simp_all add: distinct_update)

lemma count_fold_keys:
  "fst ` set (fold count_step content af) = fst ` set af \<union> set content"
  by (induction content arbitrary: af) (auto simp: dom_update)

lemma count_fold_get:
  "dict_get (fold count_step content af) c 0 = dict_get af c 0 + int (count_list content c)"
proof (induction content arbitrary: af)
  case Nil
  then show ?case by simp
next
  case (Cons x xs)
  have "dict_get (AList.update x (dict_get af x 0 + 1) af) c 0 =
          dict_get af c 0 + (if x = c then 1 else 0)"
    by (simp add: dict_get_def update_conv')
  then show ?case using Cons.IH [of "AList.update x (dict_get af x 0 + 1) af"] by simp
qed

lemma distinct_count_chars: "distinct (map fst (count_chars content))"
  using count_fold_distinct [of "[]" content] by (simp add: count_chars_def)

lemma keys_count_chars: "fst ` set (count_chars content) = set content"
  using count_fold_keys [of content "[]"] by (simp add: count_chars_def)

lemma map_of_count_chars:
  "map_of (count_chars content) c =
     (if c \<in> set content then Some (int (count_list content c)) else None)"
proof (cases "c \<in> set content")
  case True
  then have "c \<in> fst ` set (count_chars content)" by (simp add: keys_count_chars)
  then obtain n where n: "map_of (count_chars content) c = Some n"
    by (metis domD dom_map_of_conv_image_fst)
  have "dict_get (count_chars content) c 0 = int (count_list content c)"
    using count_fold_get [of content "[]" c] by (simp add: count_chars_def dict_get_def)
  then show ?thesis using n True by (simp add: dict_get_def)
next
  case False
  then have "c \<notin> fst ` set (count_chars content)" by (simp add: keys_count_chars)
  then show ?thesis using False by (simp add: map_of_eq_None_iff)
qed

lemma distinct_symbol_counts: "distinct (map fst (symbol_counts content))"
  by (simp add: symbol_counts_def comp_def)

lemma set_count_chars: "set (count_chars content) = set (symbol_counts content)"
proof (rule set_eqI)
  fix p :: "'a \<times> int"
  obtain c n where p: "p = (c, n)" by (cases p)
  have "(c, n) \<in> set (count_chars content) \<longleftrightarrow> map_of (count_chars content) c = Some n"
    using distinct_count_chars [of content] by simp
  also have "\<dots> \<longleftrightarrow> c \<in> set content \<and> n = int (count_list content c)"
    by (auto simp: map_of_count_chars)
  also have "\<dots> \<longleftrightarrow> (c, n) \<in> set (symbol_counts content)"
    by (auto simp: symbol_counts_def)
  finally show "p \<in> set (count_chars content) \<longleftrightarrow> p \<in> set (symbol_counts content)"
    using p by simp
qed

subsection \<open>The two sorts\<close>

lemma same_keys_same_list:
  assumes "map fst xs = map fst ys" and "set xs = set ys" and "distinct (map fst ys)"
  shows "xs = ys"
proof (rule nth_equalityI)
  show len: "length xs = length ys" using assms(1) by (metis length_map)
  fix i assume i: "i < length xs"
  then have "xs ! i \<in> set ys" using assms(2) by (metis nth_mem)
  moreover have "ys ! i \<in> set ys" using i len by simp
  moreover have "fst (xs ! i) = fst (ys ! i)"
    using assms(1) i len by (metis nth_map)
  moreover have "inj_on fst (set ys)" using assms(3) by (simp add: distinct_map)
  ultimately show "xs ! i = ys ! i" by (simp add: inj_on_def)
qed

lemma sort_key_fst_unique:
  assumes "distinct (map fst xs)" and "distinct (map fst ys)" and "set xs = set ys"
  shows "sort_key fst xs = sort_key fst ys"
proof (rule same_keys_same_list)
  have "sorted (map fst (sort_key fst xs))" "sorted (map fst (sort_key fst ys))"
    by simp_all
  moreover have "distinct (map fst (sort_key fst xs))" "distinct (map fst (sort_key fst ys))"
    using assms(1,2) by (simp_all add: distinct_keys_sort_key)
  moreover have "set (map fst (sort_key fst xs)) = set (map fst (sort_key fst ys))"
    using assms(3) by simp
  ultimately show "map fst (sort_key fst xs) = map fst (sort_key fst ys)"
    by (metis sorted_distinct_set_unique)
  show "set (sort_key fst xs) = set (sort_key fst ys)" using assms(3) by simp
  show "distinct (map fst (sort_key fst ys))" using assms(2) by (simp add: distinct_keys_sort_key)
qed

lemma create_alphabet_frequency_eq:
  "create_alphabet_frequency content = two_stage_sort (symbol_counts content)"
proof -
  have d1: "distinct (map fst (sort_key fst (count_chars content)))"
    by (simp add: distinct_keys_sort_key distinct_count_chars)
  then have d2: "distinct (map fst (sort_key snd (sort_key fst (count_chars content))))"
    by (simp add: distinct_keys_sort_key)
  have "create_alphabet_frequency content = sort_key snd (sort_key fst (count_chars content))"
    by (simp add: create_alphabet_frequency_def Let_def dict_of_items_distinct d1 d2)
  moreover have "sort_key fst (count_chars content) = sort_key fst (symbol_counts content)"
    by (rule sort_key_fst_unique)
       (simp_all add: distinct_count_chars distinct_symbol_counts set_count_chars)
  ultimately show ?thesis by (simp add: two_stage_sort_def)
qed

lemma distinct_create_alphabet_frequency:
  "distinct (map fst (create_alphabet_frequency content))"
  by (simp add: create_alphabet_frequency_eq two_stage_sort_def distinct_keys_sort_key
        distinct_symbol_counts)

lemma set_create_alphabet_frequency:
  "set (create_alphabet_frequency content) = set (symbol_counts content)"
  by (simp add: create_alphabet_frequency_eq two_stage_sort_def)

lemma keys_create_alphabet_frequency:
  "set (map fst (create_alphabet_frequency content)) = set content"
  by (simp add: set_create_alphabet_frequency symbol_counts_def image_image)

lemma lex_sorted:
  "sorted (map snd ys) \<Longrightarrow>
   (\<And>k. sorted_wrt (\<lambda>x y. fst x < fst y) (filter (\<lambda>y. snd y = k) ys)) \<Longrightarrow>
   sorted_wrt freq_symbol_order ys"
proof (induction ys)
  case Nil
  then show ?case by simp
next
  case (Cons y ys)
  have tail: "sorted_wrt (\<lambda>x y. fst x < fst y) (filter (\<lambda>y. snd y = k) ys)" for k
    using Cons.prems(2) [of k] by (simp split: if_splits)
  have rest: "sorted_wrt freq_symbol_order ys"
    using Cons.IH Cons.prems(1) tail by simp
  have "freq_symbol_order y z" if z: "z \<in> set ys" for z
  proof (cases "snd y = snd z")
    case True
    then have "z \<in> set (filter (\<lambda>x. snd x = snd y) ys)" using z by simp
    then have "fst y < fst z" using Cons.prems(2) [of "snd y"] by (cases z) auto
    then show ?thesis using True by (simp add: freq_symbol_order_def)
  next
    case False
    moreover have "snd y \<le> snd z" using Cons.prems(1) z by simp
    ultimately show ?thesis by (simp add: freq_symbol_order_def)
  qed
  then show ?case using rest by simp
qed

lemma two_stage_sort_sorted:
  assumes "distinct (map fst ps)"
  shows "sorted_wrt freq_symbol_order (two_stage_sort ps)"
  unfolding two_stage_sort_def
proof (rule lex_sorted)
  show "sorted (map snd (sort_key snd (sort_key fst ps)))" by simp
  fix k :: int
  have "sorted (map fst (sort_key fst ps))" by simp
  moreover have "distinct (map fst (sort_key fst ps))"
    using assms by (simp add: distinct_keys_sort_key)
  ultimately have "sorted_wrt (<) (map fst (sort_key fst ps))"
    by (simp add: strict_sorted_iff)
  then have "sorted_wrt (\<lambda>x y. fst x < fst y) (sort_key fst ps)"
    by (simp add: sorted_wrt_map)
  then have "sorted_wrt (\<lambda>x y. fst x < fst y) (filter (\<lambda>y. snd y = k) (sort_key fst ps))"
    by (rule sorted_wrt_filter)
  then show "sorted_wrt (\<lambda>x y. fst x < fst y)
               (filter (\<lambda>y. snd y = k) (sort_key snd (sort_key fst ps)))"
    by (simp add: sort_key_stable)
qed

subsection \<open>The initial leaves\<close>

lemma initial_nodes_general:
  "(\<And>c. c \<in> set cs \<Longrightarrow> map_of af c = Some (g c)) \<Longrightarrow>
     initial_nodes af cs acc = Inr (acc @ map (\<lambda>c. leaf (c, g c)) cs)"
  by (induction cs arbitrary: acc) (simp_all add: dict_getitem_def leaf_def)

lemma initial_nodes_leaves:
  assumes "distinct (map fst af)"
  shows "initial_nodes af (map fst af) [] = Inr (map leaf af)"
proof -
  have "map_of af c = Some (the (map_of af c))" if "c \<in> set (map fst af)" for c
    using that by (metis domD dom_map_of_conv_image_fst option.sel set_map)
  then have "initial_nodes af (map fst af) [] =
               Inr ([] @ map (\<lambda>c. leaf (c, the (map_of af c))) (map fst af))"
    by (rule initial_nodes_general)
  moreover have "map (\<lambda>c. leaf (c, the (map_of af c))) (map fst af) = map leaf af"
    using assms by (auto simp: comp_def)
  ultimately show ?thesis by simp
qed

text \<open>
  Claim C6. The frequency map iterates over the pairs (symbol, frequency) of the text
  sorted by symbol and then stably by frequency, which is the order by frequency with
  ties in the order of the symbols; the tree builder makes its initial leaves from the map
  in that order.
\<close>

theorem alphabet_frequency_order:
  "create_alphabet_frequency content = two_stage_sort (symbol_counts content)
   \<and> sorted_wrt freq_symbol_order (create_alphabet_frequency content)
   \<and> initial_nodes (create_alphabet_frequency content)
         (map fst (create_alphabet_frequency content)) []
       = Inr (map leaf (two_stage_sort (symbol_counts content)))"
  using initial_nodes_leaves [OF distinct_create_alphabet_frequency, of content]
  by (simp add: create_alphabet_frequency_eq two_stage_sort_sorted distinct_symbol_counts)

theorem alphabet_frequency_order_witness:
  "create_alphabet_frequency ''hello'' =
     [(CHR ''e'', 1), (CHR ''h'', 1), (CHR ''o'', 1), (CHR ''l'', 2)]
   \<and> two_stage_sort (symbol_counts ''hello'') =
     [(CHR ''e'', 1), (CHR ''h'', 1), (CHR ''o'', 1), (CHR ''l'', 2)]"
proof -
  have "two_stage_sort (symbol_counts ''hello'') =
          [(CHR ''e'', 1), (CHR ''h'', 1), (CHR ''o'', 1), (CHR ''l'', 2)]"
    by (simp add: two_stage_sort_def symbol_counts_def)
  then show ?thesis using alphabet_frequency_order [of "''hello''"] by simp
qed

section \<open>The frequency file\<close>

lemma digit_cases:
  assumes "d < (10::nat)"
  shows "d = 0 \<or> d = 1 \<or> d = 2 \<or> d = 3 \<or> d = 4 \<or> d = 5 \<or> d = 6 \<or> d = 7 \<or> d = 8 \<or> d = 9"
  using assms by arith

lemma digit_char_decimal:
  assumes "d < 10"
  shows "is_digit (digit_char d) \<and> (of_char (digit_char d) :: nat) - 48 = d"
  using digit_cases [OF assms] by (elim disjE) (simp_all add: digit_char_def is_digit_def)

lemma dec_value_snoc: "dec_value (s @ [c]) = 10 * dec_value s + (of_char c - 48)"
  by (simp add: dec_value_def)

lemma str_nat_decimal: "list_all is_digit (str_nat n) \<and> dec_value (str_nat n) = n"
proof (induction n rule: str_nat.induct)
  case (1 n)
  show ?case
  proof (cases "n < 10")
    case True
    then have "str_nat n = [digit_char n]" by (subst str_nat.simps) simp
    then show ?thesis using digit_char_decimal [OF True] by (simp add: dec_value_def)
  next
    case False
    then have step: "str_nat n = str_nat (n div 10) @ [digit_char (n mod 10)]"
      by (subst str_nat.simps) simp
    have ih: "list_all is_digit (str_nat (n div 10))" "dec_value (str_nat (n div 10)) = n div 10"
      using 1 False by simp_all
    have d: "is_digit (digit_char (n mod 10))" "(of_char (digit_char (n mod 10)) :: nat) - 48 = n mod 10"
      using digit_char_decimal [of "n mod 10"] by simp_all
    have "dec_value (str_nat n) = 10 * (n div 10) + n mod 10"
      by (simp only: step dec_value_snoc ih d)
    then show ?thesis using ih(1) d(1) by (simp add: step)
  qed
qed

lemma str_decimal: "list_all is_digit (str (int n)) \<and> dec_value (str (int n)) = n"
  using str_nat_decimal [of n] by (simp add: str_def)

lemma write_freq_lines_general:
  "(\<And>c. c \<in> set cs \<Longrightarrow> map_of af c = Some (g c)) \<Longrightarrow>
     write_freq_lines repr af cs out =
       (None, out @ concat (map (\<lambda>c. freq_line repr (c, g c)) cs))"
  by (induction cs arbitrary: out) (simp_all add: dict_getitem_def freq_line_def Let_def)

lemma write_alphabet_frequency_eq:
  assumes "distinct (map fst af)"
  shows "write_alphabet_frequency repr af = (None, sidecar_text repr af)"
proof -
  have "map_of af c = Some (the (map_of af c))" if "c \<in> set (map fst af)" for c
    using that by (metis domD dom_map_of_conv_image_fst option.sel set_map)
  then have w: "write_freq_lines repr af (map fst af) (str (int (length af)) @ [CHR 0x0A]) =
      (None, (str (int (length af)) @ [CHR 0x0A])
             @ concat (map (\<lambda>c. freq_line repr (c, the (map_of af c))) (map fst af)))"
    by (rule write_freq_lines_general)
  have m: "map (\<lambda>c. freq_line repr (c, the (map_of af c))) (map fst af) =
             map (freq_line repr) af"
    using assms by (auto simp: comp_def)
  show ?thesis
    unfolding write_alphabet_frequency_def sidecar_text_def using w [unfolded m] by simp
qed

text \<open>
  Claim C8. For a frequency map (its keys are distinct, as those of a \<open>dict\<close> are), the
  text written to the frequency file is the decimal number of symbols on the first line,
  then one line per symbol in the order of the map: the escaped symbol, one blank, the
  frequency in decimal.
\<close>

theorem sidecar_layout:
  "distinct (map fst af) \<Longrightarrow>
     write_alphabet_frequency repr af =
       (None, str (int (length af)) @ [CHR 0x0A]
              @ concat (map (\<lambda>(c, f). slice_1_m1 (repr c) @ '' '' @ str f @ [CHR 0x0A]) af))
     \<and> list_all is_digit (str (int (length af)))
     \<and> dec_value (str (int (length af))) = length af"
proof -
  assume d: "distinct (map fst af)"
  have "freq_line repr = (\<lambda>(c, f). slice_1_m1 (repr c) @ '' '' @ str f @ [CHR 0x0A])"
    by (auto simp: freq_line_def fun_eq_iff)
  then show ?thesis
    using write_alphabet_frequency_eq [OF d, of repr] str_decimal [of "length af"]
    by (simp add: sidecar_text_def)
qed

theorem sidecar_layout_witness:
  "distinct (map fst [(CHR 0x0A, 2 :: int), (CHR ''a'', 13)])
   \<and> write_alphabet_frequency repr_char [(CHR 0x0A, 2), (CHR ''a'', 13)] =
       (None, [CHR ''2'', CHR 0x0A,
               CHR 0x5C, CHR ''n'', CHR '' '', CHR ''2'', CHR 0x0A,
               CHR ''a'', CHR '' '', CHR ''1'', CHR ''3'', CHR 0x0A])"
proof -
  have d: "distinct (map fst [(CHR 0x0A, 2 :: int), (CHR ''a'', 13)])" by simp
  show ?thesis
    using sidecar_layout [OF d, of repr_char]
    by (simp add: eval_simps str_def repr_char_def slice_1_m1_def Let_def)
qed

section \<open>The tree and the encoding table\<close>

subsection \<open>The traversal\<close>

lemma build_encoding_table_fold:
  "build_encoding_table t acc tbl =
     fold (\<lambda>(k, v) d. AList.update k v d) (assignments t acc) tbl"
  by (induction t acc tbl rule: build_encoding_table.induct)
     (simp add: Let_def split: option.splits)

lemma assignments_keys: "map fst (assignments t acc) = symbols t"
  by (induction t acc rule: assignments.induct) (simp split: option.splits)

lemma assignments_prefix: "p \<in> set (assignments t acc) \<Longrightarrow> prefix acc (snd p)"
  by (induction t acc rule: assignments.induct)
     (auto split: option.splits dest: append_prefixD)

lemma assignments_bits:
  "p \<in> set (assignments t acc) \<Longrightarrow> list_all is_bit acc \<Longrightarrow> list_all is_bit (snd p)"
  by (induction t acc rule: assignments.induct)
     (auto split: option.splits simp: is_bit_def)

lemma branches_incomparable:
  assumes "prefix (acc @ ''0'') (snd p)" and "prefix (acc @ ''1'') (snd q)"
  shows "incomparable p q"
proof -
  have False if "prefix (acc @ ''0'') z" "prefix (acc @ ''1'') z" for z
  proof -
    have "prefix (acc @ ''0'') (acc @ ''1'') \<or> prefix (acc @ ''1'') (acc @ ''0'')"
      using that by (rule prefix_same_cases)
    then show False by simp
  qed
  moreover have "prefix (acc @ ''0'') (snd q)" if "prefix (snd p) (snd q)"
    using assms(1) that by (rule prefix_order.trans)
  moreover have "prefix (acc @ ''1'') (snd p)" if "prefix (snd q) (snd p)"
    using assms(2) that by (rule prefix_order.trans)
  ultimately show ?thesis using assms unfolding incomparable_def by blast
qed

lemma assignments_incomparable: "sorted_wrt incomparable (assignments t acc)"
proof (induction t acc rule: assignments.induct)
  case (1 ch f l r cd acc)
  show ?case
  proof (cases ch)
    case (Some c)
    then show ?thesis by simp
  next
    case None
    let ?ls = "case l of None \<Rightarrow> [] | Some ln \<Rightarrow> assignments ln (acc @ ''0'')"
    let ?rs = "case r of None \<Rightarrow> [] | Some rn \<Rightarrow> assignments rn (acc @ ''1'')"
    have "sorted_wrt incomparable ?ls" using 1(1) None by (simp split: option.splits)
    moreover have "sorted_wrt incomparable ?rs" using 1(2) None by (simp split: option.splits)
    moreover have "incomparable p q" if "p \<in> set ?ls" "q \<in> set ?rs" for p q
    proof (rule branches_incomparable)
      show "prefix (acc @ ''0'') (snd p)"
        using that(1) by (auto split: option.splits dest: assignments_prefix)
      show "prefix (acc @ ''1'') (snd q)"
        using that(2) by (auto split: option.splits dest: assignments_prefix)
    qed
    ultimately show ?thesis using None by (simp add: sorted_wrt_append)
  qed
qed

lemma sorted_wrt_incomparable_pairs:
  "sorted_wrt incomparable xs \<Longrightarrow> p \<in> set xs \<Longrightarrow> q \<in> set xs \<Longrightarrow> p \<noteq> q \<Longrightarrow>
     incomparable p q"
  by (induction xs) (auto simp: incomparable_def)

lemma assignments_prefix_free: "prefix_free (assignments t acc)"
proof -
  have "\<not> prefix ca cb"
    if "(a, ca) \<in> set (assignments t acc)" "(b, cb) \<in> set (assignments t acc)" "a \<noteq> b"
    for a b ca cb
  proof -
    have "incomparable (a, ca) (b, cb)"
      using sorted_wrt_incomparable_pairs [OF assignments_incomparable that(1,2)] that(3)
      by simp
    then show ?thesis by (simp add: incomparable_def)
  qed
  then show ?thesis unfolding prefix_free_def by blast
qed

subsection \<open>The symbols of the working list\<close>

lemma symbols_set_code: "symbols (set_code n c) = symbols n"
  by (cases n) (simp add: set_code_def)

lemma all_symbols_sort: "all_symbols (sort_key f nodes) = all_symbols nodes"
  by (simp add: all_symbols_def)

lemma all_symbols_leaves: "all_symbols (map leaf af) = mset (map fst af)"
  by (induction af) (simp_all add: all_symbols_def leaf_def)

lemma fold_scan_two_members:
  "{#a, b#} \<subseteq># M \<Longrightarrow> fold scan_two rest (a, b) = (m1, m2) \<Longrightarrow>
     {#m1, m2#} \<subseteq># M + mset rest"
proof (induction rest arbitrary: a b M)
  case Nil
  then show ?case by simp
next
  case (Cons nd rest)
  obtain a' b' where s: "scan_two nd (a, b) = (a', b')" by (cases "scan_two nd (a, b)")
  have a: "a \<in># M" using Cons.prems(1) by (rule mset_subset_eqD) simp
  have "M \<subseteq># add_mset nd M" by (simp add: subset_mset.le_iff_add [of M])
  with Cons.prems(1) have ab: "{#a, b#} \<subseteq># add_mset nd M"
    by (rule subset_mset.order_trans)
  have "{#a', b'#} \<subseteq># add_mset nd M"
  proof -
    have "{#nd, a#} \<subseteq># add_mset nd M" "{#a, nd#} \<subseteq># add_mset nd M"
      using a by (simp_all add: add_mset_commute [of a nd])
    then show ?thesis using s ab by (auto simp: scan_two_def split: if_splits)
  qed
  moreover have "fold scan_two rest (a', b') = (m1, m2)" using Cons.prems(2) s by simp
  ultimately have "{#m1, m2#} \<subseteq># add_mset nd M + mset rest" by (rule Cons.IH)
  then show ?case by simp
qed

lemma get_two_smallest_nodes_members:
  assumes "get_two_smallest_nodes xs = Inr (m1, m2)"
  shows "{#m1, m2#} \<subseteq># mset xs"
proof (cases xs rule: get_two_smallest_nodes.cases)
  case (1 n0 n1 rest)
  let ?start = "if frequency n1 < frequency n0 then (n1, n0) else (n0, n1)"
  obtain a b where st: "?start = (a, b)" by (cases ?start)
  have "{#a, b#} \<subseteq># {#n0, n1#}" using st by (auto split: if_splits simp: add_mset_commute)
  moreover have "fold scan_two rest (a, b) = (m1, m2)" using assms 1 st by simp
  ultimately have "{#m1, m2#} \<subseteq># {#n0, n1#} + mset rest" by (rule fold_scan_two_members)
  then show ?thesis using 1 by simp
qed (use assms in simp_all)

lemma get_two_smallest_nodes_defined:
  "1 < length xs \<Longrightarrow> \<exists>m1 m2. get_two_smallest_nodes xs = Inr (m1, m2)"
  by (cases xs rule: get_two_smallest_nodes.cases) (auto intro: prod.exhaust)

lemma merge_nodes_result:
  assumes "{#m1, m2#} \<subseteq># mset nodes"
  shows "\<exists>nodes'. merge_nodes nodes m1 m2 = Inr nodes'
           \<and> all_symbols nodes' = all_symbols nodes \<and> Suc (length nodes') = length nodes"
proof -
  obtain R where R: "mset nodes = {#m1, m2#} + R"
    using assms by (auto simp: mset_subset_eq_exists_conv)
  have in1: "m1 \<in> set nodes"
    using R by (metis add_mset_add_single set_mset_mset union_iff union_single_eq_member
        union_mset_add_mset_left)
  have r1: "mset (remove1 m1 nodes) = add_mset m2 R" using R by simp
  then have in2: "m2 \<in> set (remove1 m1 nodes)"
    by (metis set_mset_mset union_single_eq_member)
  have r2: "mset (remove1 m2 (remove1 m1 nodes)) = R" using r1 by simp
  let ?parent = "Node None (frequency m1 + frequency m2)
                   (Some (set_code m1 ''0'')) (Some (set_code m2 ''1'')) []"
  have res: "merge_nodes nodes m1 m2 = Inr (remove1 m2 (remove1 m1 nodes) @ [?parent])"
    using in1 in2 by (simp add: merge_nodes_def list_remove_def)
  have "all_symbols (remove1 m2 (remove1 m1 nodes) @ [?parent]) = all_symbols nodes"
    by (simp add: all_symbols_def r2 R symbols_set_code)
  moreover have "size (mset nodes) = Suc (Suc (size R))" using R by simp
  then have "Suc (length (remove1 m2 (remove1 m1 nodes) @ [?parent])) = length nodes"
    using r2 by (metis length_append_singleton size_mset)
  ultimately show ?thesis using res by blast
qed

lemma merge_loop_result:
  "\<exists>r. merge_loop nodes = Inr r \<and> all_symbols r = all_symbols nodes
        \<and> length r = min 1 (length nodes)"
proof (induction "length nodes" arbitrary: nodes rule: less_induct)
  case less
  show ?case
  proof (cases "1 < length nodes")
    case False
    then show ?thesis by (subst merge_loop.simps) simp
  next
    case True
    then obtain m1 m2 where g: "get_two_smallest_nodes (sort_key frequency nodes) = Inr (m1, m2)"
      using get_two_smallest_nodes_defined [of "sort_key frequency nodes"] by auto
    then have "{#m1, m2#} \<subseteq># mset (sort_key frequency nodes)"
      by (rule get_two_smallest_nodes_members)
    then obtain nodes' where m: "merge_nodes (sort_key frequency nodes) m1 m2 = Inr nodes'"
      and s: "all_symbols nodes' = all_symbols (sort_key frequency nodes)"
      and l: "Suc (length nodes') = length (sort_key frequency nodes)"
      using merge_nodes_result by blast
    have "length nodes' < length nodes" using l by simp
    then obtain r where r: "merge_loop nodes' = Inr r" "all_symbols r = all_symbols nodes'"
      "length r = min 1 (length nodes')"
      using less by blast
    have "merge_loop nodes = merge_loop nodes'"
      using True g m by (subst merge_loop.simps) simp
    moreover have "Suc (length nodes') = length nodes" using l by simp
    then have "Suc 0 \<le> length nodes'" using True by linarith
    then have "min 1 (length nodes') = min 1 (length nodes)" using True by arith
    ultimately show ?thesis using r s by (simp add: all_symbols_sort)
  qed
qed

lemma create_tree_result:
  assumes "distinct (map fst af)" and "af \<noteq> []"
  shows "\<exists>root. create_tree af = Inr root \<and> mset (symbols root) = mset (map fst af)"
proof -
  obtain r where r: "merge_loop (map leaf af) = Inr r"
    "all_symbols r = all_symbols (map leaf af)" "length r = min 1 (length (map leaf af))"
    using merge_loop_result by blast
  have "length r = 1" using r(3) assms(2) by (cases af) simp_all
  then obtain root where root: "r = [root]"
    by (cases r) simp_all
  have "mset (symbols root) = mset (map fst af)"
    using r(2) root by (simp add: all_symbols_leaves) (simp add: all_symbols_def)
  moreover have "create_tree af = Inr root"
    using r(1) root by (simp add: create_tree_def initial_nodes_leaves [OF assms(1)])
  ultimately show ?thesis by blast
qed

lemma create_tree_of_content:
  assumes "content \<noteq> []"
  shows "\<exists>root. create_tree (create_alphabet_frequency content) = Inr root
           \<and> distinct (symbols root) \<and> set (symbols root) = set content"
proof -
  have "set (map fst (create_alphabet_frequency content)) \<noteq> {}"
    using assms by (simp only: keys_create_alphabet_frequency) simp
  then have ne: "create_alphabet_frequency content \<noteq> []" by auto
  obtain root where root: "create_tree (create_alphabet_frequency content) = Inr root"
    "mset (symbols root) = mset (map fst (create_alphabet_frequency content))"
    using create_tree_result [OF distinct_create_alphabet_frequency ne] by blast
  have "distinct (symbols root)"
    using root(2) distinct_create_alphabet_frequency [of content]
    by (metis mset_eq_imp_distinct_iff)
  moreover have "set (symbols root) = set content"
    using root(2) keys_create_alphabet_frequency [of content] by (metis mset_eq_setD)
  ultimately show ?thesis using root(1) by blast
qed

subsection \<open>The table of a run\<close>

lemma encoding_table_of_tree:
  "distinct (symbols t) \<Longrightarrow> build_encoding_table t [] [] = assignments t []"
  using fold_update_distinct [of "[]" "assignments t []"]
  by (simp add: build_encoding_table_fold assignments_keys)

lemma compress_table:
  "create_tree (create_alphabet_frequency content) = Inr root \<Longrightarrow>
     encoding_table (self_after (compress repr symbol_of self content)) =
       build_encoding_table root [] (encoding_table self)"
  by (simp add: compress_def Let_def case_prod_beta split: prod.splits option.splits)

text \<open>
  Claim C7. For every non-empty input, compressed by an object whose table is still
  empty (as \<open>__init__\<close> leaves it), the tree is built, every symbol of the frequency map
  is a key of the encoding table exactly once, and no code of the table is a prefix of the
  code of another symbol.
\<close>

theorem encoding_table_prefix_free:
  assumes "content \<noteq> []" and "encoding_table self = []"
  shows "(\<exists>root. create_tree (create_alphabet_frequency content) = Inr root)
    \<and> distinct (map fst (encoding_table (self_after (compress repr symbol_of self content))))
    \<and> set (map fst (encoding_table (self_after (compress repr symbol_of self content)))) =
        set (map fst (create_alphabet_frequency content))
    \<and> prefix_free (encoding_table (self_after (compress repr symbol_of self content)))"
proof -
  obtain root where root: "create_tree (create_alphabet_frequency content) = Inr root"
    "distinct (symbols root)" "set (symbols root) = set content"
    using create_tree_of_content [OF assms(1)] by blast
  have tbl: "encoding_table (self_after (compress repr symbol_of self content)) =
               assignments root []"
    using compress_table [OF root(1), of repr symbol_of self] assms(2)
    by (simp add: encoding_table_of_tree [OF root(2)])
  have "map fst (assignments root []) = symbols root" by (rule assignments_keys)
  then show ?thesis
    using root tbl keys_create_alphabet_frequency [of content]
      assignments_prefix_free [of root "[]"]
    by auto
qed

theorem encoding_table_prefix_free_witness:
  "''hello'' \<noteq> [] \<and> encoding_table (init ''hello.txt'' :: char compressor) = []
   \<and> prefix_free (encoding_table (self_after (compress repr_char id (init ''hello.txt'') ''hello'')))
   \<and> set (map fst (encoding_table (self_after (compress repr_char id (init ''hello.txt'') ''hello''))))
       = {CHR ''e'', CHR ''h'', CHR ''l'', CHR ''o''}"
proof -
  have a: "''hello'' \<noteq> []" and b: "encoding_table (init ''hello.txt'' :: char compressor) = []"
    by (simp_all add: init_def)
  have "set (map fst (create_alphabet_frequency ''hello'')) = {CHR ''e'', CHR ''h'', CHR ''l'', CHR ''o''}"
    by (simp only: keys_create_alphabet_frequency) auto
  then show ?thesis
    using encoding_table_prefix_free [OF a b, of repr_char id] a b by simp
qed

section \<open>Determinism of a run\<close>

subsection \<open>Encoding depends on the codes of the symbols of the text only\<close>

lemma map_of_fold_update:
  "map_of (fold (\<lambda>(k, v) d. AList.update k v d) as tbl) = map_of tbl ++ map_of (rev as)"
proof (induction as arbitrary: tbl)
  case Nil
  then show ?case by simp
next
  case (Cons p as)
  obtain k v where p: "p = (k, v)" by (cases p)
  have "map_of (fold (\<lambda>(k, v) d. AList.update k v d) as (AList.update k v tbl)) =
          map_of (AList.update k v tbl) ++ map_of (rev as)"
    by (rule Cons.IH)
  also have "\<dots> = map_of tbl ++ map_of (rev ((k, v) # as))"
    by (rule ext) (simp add: update_conv' map_add_def split: option.splits)
  finally show ?case using p by simp
qed

lemma table_lookup_of_tree:
  assumes "c \<in> set (symbols t)"
  shows "map_of (build_encoding_table t [] tbl) c = map_of (rev (assignments t [])) c"
proof -
  have "c \<in> fst ` set (rev (assignments t []))"
    using assms assignments_keys [of t "[]"] by (metis set_map set_rev)
  then have "c \<in> dom (map_of (rev (assignments t [])))"
    by (simp add: dom_map_of_conv_image_fst)
  then show ?thesis
    by (simp add: build_encoding_table_fold map_of_fold_update map_add_dom_app_simps)
qed

lemma encode_loop_cong:
  "(\<And>c. c \<in> set content \<Longrightarrow> map_of t1 c = map_of t2 c) \<Longrightarrow>
     encode_loop t1 content acc = encode_loop t2 content acc"
  by (induction content arbitrary: acc) (simp_all add: dict_getitem_def split: option.splits)

lemma compress_outputs:
  assumes "create_tree (create_alphabet_frequency content) = Inr root"
    and "snd (get_output_path (path self)) \<noteq> path self"
  shows "raised (compress repr symbol_of self content) =
           fst (write_compressed_file
                  \<lparr>path = p, alphabet_frequency = af,
                   encoding_table = build_encoding_table root [] (encoding_table self)\<rparr> content)
       \<and> freq_file (compress repr symbol_of self content) =
           Some (sidecar_text repr (create_alphabet_frequency content))
       \<and> bin_file (compress repr symbol_of self content) =
           snd (write_compressed_file
                  \<lparr>path = p, alphabet_frequency = af,
                   encoding_table = build_encoding_table root [] (encoding_table self)\<rparr> content)"
  using assms
    write_alphabet_frequency_eq [OF distinct_create_alphabet_frequency, of repr content]
  by (simp add: compress_def Let_def case_prod_beta write_compressed_file_def
        split: prod.splits sum.splits)

lemma write_compressed_file_cong:
  assumes "\<And>c. c \<in> set content \<Longrightarrow> map_of (encoding_table s1) c = map_of (encoding_table s2) c"
  shows "write_compressed_file s1 content = write_compressed_file s2 content"
  using encode_loop_cong [of content "encoding_table s1" "encoding_table s2" "[]", OF assms]
  by (simp add: write_compressed_file_def encode_def)

lemma compress_path: "path (self_after (compress repr symbol_of self content)) = path self"
  by (simp add: compress_def Let_def case_prod_beta split: prod.splits sum.splits option.splits)

lemma aaab_dat_run:
  "compress repr_char id (init ''aaab.dat'') ''aaab'' =
     \<lparr>raised = Some KeyError,
      self_after = \<lparr>path = ''aaab.dat'',
                     alphabet_frequency = [(CHR ''b'', 1), (CHR ''a'', 3)],
                     encoding_table = [(CHR ''b'', ''0''), (CHR ''a'', ''1'')]\<rparr>,
      freq_file = Some [CHR ''2'', CHR 0x0A, CHR ''b'', CHR '' '', CHR ''1'', CHR 0x0A,
                        CHR ''a'', CHR '' '', CHR ''3'', CHR 0x0A],
      bin_file = None\<rparr>"
proof -
  have p: "get_output_path ''aaab.dat'' = (''aaab.dat'', ''aaab.dat'')"
    by (simp add: get_output_path_def str_replace.simps)
  have e: "encode_loop [(CHR ''b'', ''0''), (CHR ''a'', ''1'')]
             [CHR ''2'', CHR 0x0A, CHR ''b'', CHR '' '', CHR ''1'', CHR 0x0A,
              CHR ''a'', CHR '' '', CHR ''3'', CHR 0x0A] [] = Inl KeyError"
    by (simp add: dict_getitem_def)
  show ?thesis
    by (simp add: compress_def init_def Let_def p aaab_af aaab_tree aaab_table aaab_sidecar
          write_compressed_file_def encode_def e
        del: encode_loop.simps build_encoding_table.simps)
qed

text \<open>
  Claim C9, as the code has it. The output paths are made from the input path by
  replacing \<open>.txt\<close>. For input paths that contain \<open>.txt\<close>, neither file written is the
  input, and the exception that ends a run (if any), the frequency file and the payload
  depend on the text alone: two runs on the same text give the same frequency file and
  the same payload, whatever the two paths and whatever an earlier run has left in the
  fields of the object (\<open>encoding_table\<close> is never reset). On a path without \<open>.txt\<close> the
  frequency file is written over the input before the second reading, and the same text
  gives another result: \<open>aaab\<close> at \<open>aaab.txt\<close> yields the payload \<open>0x04, 0xE0\<close>, at
  \<open>aaab.dat\<close> a \<open>KeyError\<close> and no payload.
\<close>

theorem determinism_path_counterexample:
  "bin_file (compress repr_char id (init ''aaab.txt'') ''aaab'') = Some [0x04, 0xE0]
   \<and> raised (compress repr_char id (init ''aaab.txt'') ''aaab'') = None
   \<and> bin_file (compress repr_char id (init ''aaab.dat'') ''aaab'') = None
   \<and> raised (compress repr_char id (init ''aaab.dat'') ''aaab'') = Some KeyError"
  by (simp add: aaab_run aaab_dat_run)

theorem compress_deterministic:
  assumes "sublist ''.txt'' (path s1)" and "sublist ''.txt'' (path s2)"
  shows "raised (compress repr symbol_of s1 content) = raised (compress repr symbol_of s2 content)
   \<and> freq_file (compress repr symbol_of s1 content) =
       freq_file (compress repr symbol_of s2 content)
   \<and> bin_file (compress repr symbol_of s1 content) =
       bin_file (compress repr symbol_of s2 content)"
proof (cases "content = []")
  case True
  then show ?thesis
    by (simp add: compress_def Let_def case_prod_beta empty_af create_tree_empty)
next
  case False
  then obtain root where root: "create_tree (create_alphabet_frequency content) = Inr root"
    "distinct (symbols root)" "set (symbols root) = set content"
    using create_tree_of_content by blast
  let ?t1 = "\<lparr>path = [], alphabet_frequency = [],
              encoding_table = build_encoding_table root [] (encoding_table s1)\<rparr>"
  let ?t2 = "\<lparr>path = [], alphabet_frequency = [],
              encoding_table = build_encoding_table root [] (encoding_table s2)\<rparr>"
  have "map_of (encoding_table ?t1) c = map_of (encoding_table ?t2) c"
    if "c \<in> set content" for c
    using that root(3) by (simp add: table_lookup_of_tree)
  then have "write_compressed_file ?t1 content = write_compressed_file ?t2 content"
    by (rule write_compressed_file_cong)
  then show ?thesis
    using compress_outputs [OF root(1) freq_path_not_input [OF assms(1)],
                            of repr symbol_of "[]" "[]"]
      compress_outputs [OF root(1) freq_path_not_input [OF assms(2)],
                        of repr symbol_of "[]" "[]"]
    by simp
qed

theorem compress_deterministic_witness:
  "sublist ''.txt'' (path (init ''a.txt'' :: char compressor))
   \<and> sublist ''.txt'' (path (self_after (compress repr_char id (init ''b.txt'') ''zzzz'')))
   \<and> bin_file (compress repr_char id (init ''a.txt'') ''aaab'') =
       bin_file (compress repr_char id
                   (self_after (compress repr_char id (init ''b.txt'') ''zzzz'')) ''aaab'')
   \<and> bin_file (compress repr_char id (init ''a.txt'') ''aaab'') = Some [0x04, 0xE0]"
proof -
  have a: "sublist ''.txt'' (path (init ''a.txt'' :: char compressor))"
    and a': "sublist ''.txt'' (path (init ''aaab.txt'' :: char compressor))"
    by (simp_all add: init_def sublist_Cons_right)
  have b: "sublist ''.txt'' (path (self_after (compress repr_char id (init ''b.txt'') ''zzzz'')))"
    by (simp add: compress_path init_def sublist_Cons_right)
  show ?thesis
    using compress_deterministic [OF a b, of repr_char id "''aaab''"]
      compress_deterministic [OF a a', of repr_char id "''aaab''"] a b
    by (simp add: aaab_run)
qed

section \<open>A run on a non-empty text raises nothing\<close>

lemma bits_value_bound: "bits_value s < 2 ^ length s"
proof (induction s rule: rev_induct)
  case Nil
  then show ?case by (simp add: bits_value_def)
next
  case (snoc c s)
  have "bits_value (s @ [c]) \<le> 2 * bits_value s + 1" by (simp add: bits_value_snoc)
  also have "\<dots> < 2 * 2 ^ length s" using snoc.IH by linarith
  finally show ?case by simp
qed

lemma int_base2_byte:
  assumes "length s = 8" and "list_all is_bit s"
  shows "\<exists>v<256. int_base2 s = Inr v"
proof -
  have "s \<noteq> []" using assms(1) by auto
  moreover have "bits_value s < 256" using bits_value_bound [of s] assms(1) by simp
  ultimately show ?thesis using assms(2) by (simp add: int_base2_def)
qed

lemma is_bit_slice: "list_all is_bit text \<Longrightarrow> list_all is_bit (slice text i j)"
  unfolding slice_def list_all_iff
  by (meson in_set_dropD in_set_takeD)

lemma byte_loop_defined:
  "list_all is_bit text \<Longrightarrow> (\<And>i. i \<in> set is \<Longrightarrow> i + 8 \<le> length text) \<Longrightarrow>
     \<exists>bs. byte_loop text is b = Inr bs \<and> length bs = length b + length is"
proof (induction "is" arbitrary: b)
  case Nil
  then show ?case by simp
next
  case (Cons i "is")
  have "length (slice text i (i + 8)) = 8" using Cons.prems(2) [of i] by (simp add: slice_def)
  then obtain v where v: "v < 256" "int_base2 (slice text i (i + 8)) = Inr v"
    using int_base2_byte is_bit_slice [OF Cons.prems(1)] by blast
  obtain bs where "byte_loop text is (b @ [of_nat v]) = Inr bs"
    "length bs = length (b @ [of_nat v :: byte]) + length is"
    using Cons.IH [OF Cons.prems(1), of "b @ [of_nat v]"] Cons.prems(2) by auto
  then show ?case using v by (simp add: bytearray_append_def)
qed

lemma range_step_aligned:
  assumes "n mod 8 = 0" and "i \<in> set (range_step 0 n 8)"
  shows "i + 8 \<le> n"
proof -
  obtain k where k: "i = k * 8" "k < (n + 7) div 8"
    using assms(2) by (auto simp: range_step_def)
  have "(n + 7) div 8 = n div 8" using assms(1) by presburger
  then have "Suc k \<le> n div 8" using k(2) by simp
  then have "Suc k * 8 \<le> n div 8 * 8" by (rule mult_le_mono1)
  also have "\<dots> = n" using assms(1) by presburger
  finally show ?thesis using k(1) by simp
qed

lemma get_byte_array_defined:
  assumes "list_all is_bit text" and "length text mod 8 = 0"
  shows "\<exists>bs. get_byte_array text = Inr bs"
proof -
  have "\<exists>bs. byte_loop text (range_step 0 (length text) 8) [] = Inr bs
          \<and> length bs = length ([] :: byte list) + length (range_step 0 (length text) 8)"
    using assms(1) range_step_aligned [OF assms(2)] by (rule byte_loop_defined)
  then show ?thesis using assms(2) by (auto simp: get_byte_array_def)
qed

lemma encode_loop_defined:
  "(\<And>c. c \<in> set content \<Longrightarrow> \<exists>cd. map_of tbl c = Some cd \<and> list_all is_bit cd) \<Longrightarrow>
   list_all is_bit acc \<Longrightarrow>
     \<exists>bc. encode_loop tbl content acc = Inr bc \<and> list_all is_bit bc"
proof (induction content arbitrary: acc)
  case Nil
  then show ?case by simp
next
  case (Cons c cs)
  obtain cd where cd: "map_of tbl c = Some cd" "list_all is_bit cd"
    using Cons.prems(1) [of c] by auto
  have "list_all is_bit (acc @ cd)" using Cons.prems(2) cd(2) by simp
  then have "\<exists>bc. encode_loop tbl cs (acc @ cd) = Inr bc \<and> list_all is_bit bc"
    using Cons.IH Cons.prems(1) by simp
  then show ?case using cd(1) by (simp add: dict_getitem_def)
qed

lemma is_bit_pad: "list_all is_bit t \<Longrightarrow> list_all is_bit (pad_encoded_text t)"
  using format_08b_bits [of "8 - length t mod 8"]
  by (simp add: pad_encoded_text_eq) (simp add: list_all_iff is_bit_def)

lemma table_codes_of_tree:
  assumes "c \<in> set (symbols t)"
  shows "\<exists>cd. map_of (build_encoding_table t [] tbl) c = Some cd \<and> list_all is_bit cd"
proof -
  have "c \<in> fst ` set (rev (assignments t []))"
    using assms assignments_keys [of t "[]"] by (metis set_map set_rev)
  then obtain cd where cd: "map_of (rev (assignments t [])) c = Some cd"
    by (metis domD dom_map_of_conv_image_fst)
  then have "(c, cd) \<in> set (assignments t [])" by (metis map_of_SomeD set_rev)
  then have "list_all is_bit cd" using assignments_bits [of "(c, cd)" t "[]"] by simp
  then show ?thesis using cd by (simp add: table_lookup_of_tree [OF assms])
qed

lemma compress_succeeds:
  assumes "content \<noteq> []" and "sublist ''.txt'' (path self)"
  shows "raised (compress repr symbol_of self content) = None
    \<and> freq_file (compress repr symbol_of self content) =
        Some (sidecar_text repr (create_alphabet_frequency content))
    \<and> (\<exists>bs. bin_file (compress repr symbol_of self content) = Some bs)"
proof -
  obtain root where root: "create_tree (create_alphabet_frequency content) = Inr root"
    "distinct (symbols root)" "set (symbols root) = set content"
    using create_tree_of_content [OF assms(1)] by blast
  let ?tbl = "build_encoding_table root [] (encoding_table self)"
  let ?s = "\<lparr>path = [], alphabet_frequency = [], encoding_table = ?tbl\<rparr>"
  have "\<exists>cd. map_of ?tbl c = Some cd \<and> list_all is_bit cd" if "c \<in> set content" for c
    using that root(3) table_codes_of_tree by metis
  then obtain bc where bc: "encode_loop ?tbl content [] = Inr bc" "list_all is_bit bc"
    using encode_loop_defined [of content ?tbl "[]"] by auto
  obtain bs where bs: "get_byte_array (pad_encoded_text bc) = Inr bs"
    using get_byte_array_defined [OF is_bit_pad [OF bc(2)] pad_length_mod] by blast
  have "write_compressed_file ?s content = (None, Some bs)"
    using bc(1) bs by (simp add: write_compressed_file_def write_payload_def encode_def)
  then show ?thesis
    using compress_outputs [OF root(1) freq_path_not_input [OF assms(2)],
                            of repr symbol_of "[]" "[]"]
    by simp
qed

end
